theory Spec2Isabelle
  imports Main "HOL-Library.Sublist"
begin

section \<open>Turkish syllabification (durak/syllabification.py)\<close>

subsection \<open>Strings, errors and the Unicode library\<close>

text \<open>
  A Python \<open>str\<close> is a sequence of Unicode code points. A code point is a natural
  number, a string a list of them; \<open>ascii\<close> writes the ASCII part of a literal.
\<close>

type_synonym codepoint = nat
type_synonym ustring = "codepoint list"

definition ascii :: "string \<Rightarrow> ustring" where
  "ascii s = map of_char s"

datatype error = IndexError | ValueError | AttributeError

definition getitem :: "'a list \<Rightarrow> nat \<Rightarrow> error + 'a" where
  \<comment> \<open>\<open>xs[i]\<close> for a non-negative index: IndexError out of range.\<close>
  "getitem xs i = (if i < length xs then Inr (xs ! i) else Inl IndexError)"

definition iadd_last :: "'a list list \<Rightarrow> 'a list \<Rightarrow> error + 'a list list" where
  \<comment> \<open>\<open>xs[-1] += ys\<close>: IndexError on the empty list.\<close>
  "iadd_last xs ys =
     (if xs = [] then Inl IndexError else Inr (butlast xs @ [last xs @ ys]))"

text \<open>
  The module calls four operations of Python's Unicode library:
  \<open>unicodedata.normalize("NFC", _)\<close>, \<open>str.lower\<close>, \<open>str.upper\<close> and \<open>str.isupper\<close>.
  They are not code of the module, so the model takes them as a parameter: every general
  theorem below holds for each choice of the four operations, and says which
  properties of them it relies on.
\<close>

record unicode =
  normalize_nfc :: "ustring \<Rightarrow> ustring"
  str_lower :: "ustring \<Rightarrow> ustring"
  str_upper :: "ustring \<Rightarrow> ustring"
  str_isupper :: "ustring \<Rightarrow> bool"

subsection \<open>Character classifier\<close>

text \<open>
  \<open>VOWELS\<close> is the frozenset of the eleven characters a, e, dotless i (U+0131), i, o,
  o with diaeresis (U+00F6), u, u with diaeresis (U+00FC) and a, i, u with circumflex
  (U+00E2, U+00EE, U+00FB). \<open>CONSONANTS\<close> is the frozenset of b, c, c with cedilla
  (U+00E7), d, f, g, g with breve (U+011F), h, j, k, l, m, n, p, r, s, s with cedilla
  (U+015F), t, v, y, z, q, w, x. Every character of the two literals is a single
  precomposed code point in the source file. \<open>Syllabifier.__init__\<close> binds
  \<open>self.vowels\<close> and \<open>self.consonants\<close> to these two constants and nothing
  reassigns them.
\<close>

definition VOWELS :: "codepoint set" where
  "VOWELS = {97, 101, 305, 105, 111, 246, 117, 252, 226, 238, 251}"

definition CONSONANTS :: "codepoint set" where
  "CONSONANTS = {98, 99, 231, 100, 102, 103, 287, 104, 106, 107, 108, 109, 110,
                 112, 114, 115, 351, 116, 118, 121, 122, 113, 119, 120}"

subsection \<open>Boundary engine\<close>

definition is_valid_onset :: "ustring \<Rightarrow> bool" where
  "is_valid_onset cluster \<longleftrightarrow>
     cluster \<in> {ascii ''tr'', ascii ''pr'', ascii ''kr'', ascii ''gr'', ascii ''br'',
                ascii ''dr'', ascii ''fr'', ascii ''pl'', ascii ''kl'', ascii ''bl'',
                ascii ''fl'', ascii ''gl''}"

text \<open>
  The counting loop of \<open>_find_break_point\<close>:
  \<^verbatim>\<open>for char in remaining:
    if char in self.consonants: consonant_count += 1
    else: break\<close>
\<close>

fun count_consonants :: "ustring \<Rightarrow> int \<Rightarrow> int" where
  "count_consonants [] consonant_count = consonant_count"
| "count_consonants (char # rest) consonant_count =
     (if char \<in> CONSONANTS then count_consonants rest (consonant_count + 1)
      else consonant_count)"

definition find_break_point :: "ustring \<Rightarrow> ustring \<Rightarrow> int" where
  "find_break_point current_syllable remaining =
     (if remaining = [] then 0
      else
        let consonant_count = count_consonants remaining 0 in
        if consonant_count = 0 then 0
        else if consonant_count = 1 then 0
        else if consonant_count = 2 then
          (let cluster = take 2 remaining in
           if is_valid_onset cluster then 0 else 1)
        else if consonant_count \<ge> 3 then 1
        else 0)"

text \<open>
  The \<open>while i < len(word)\<close> loop of \<open>_segment\<close>, as a function of the loop
  variables \<open>i\<close>, \<open>current\<close> and \<open>syllables\<close>; it returns the last two when the loop
  ends. \<open>word[i + 1:]\<close> is \<open>drop (i + 1) word\<close> and \<open>next_chars[:break_point]\<close> is
  \<open>take break_point next_chars\<close>.
\<close>

function segment_loop ::
  "ustring \<Rightarrow> nat \<Rightarrow> ustring \<Rightarrow> ustring list \<Rightarrow> error + (ustring \<times> ustring list)"
where
  "segment_loop word i current syllables =
     (if i < length word then
        (case getitem word i of
           Inl e \<Rightarrow> Inl e
         | Inr char \<Rightarrow>
             let current = current @ [char] in
             if char \<in> VOWELS then
               (if i + 1 < length word then
                  let next_chars = drop (i + 1) word;
                      break_point = find_break_point current next_chars
                  in
                    if break_point = 0 then
                      segment_loop word (i + 1) [] (syllables @ [current])
                    else if break_point > 0 then
                      segment_loop word (i + nat break_point + 1) []
                        (syllables @ [current @ take (nat break_point) next_chars])
                    else segment_loop word (i + 1) current syllables
                else segment_loop word (i + 1) [] (syllables @ [current]))
             else segment_loop word (i + 1) current syllables)
      else Inr (current, syllables))"
  by pat_completeness auto
termination
  by (relation "measure (\<lambda>(word, i, current, syllables). length word - i)") auto

declare segment_loop.simps [simp del]

definition segment :: "ustring \<Rightarrow> error + ustring list" where
  "segment word =
     (case segment_loop word 0 [] [] of
        Inl e \<Rightarrow> Inl e
      | Inr (current, syllables) \<Rightarrow>
          if current \<noteq> [] then
            (if syllables \<noteq> [] then iadd_last syllables current
             else Inr (syllables @ [current]))
          else Inr syllables)"

subsection \<open>Case restorer\<close>

text \<open>
  The inner loop \<open>for char in syllable\<close> of \<open>_restore_case\<close>, with the loop state
  \<open>restored\<close> and \<open>char_index\<close>, and the outer loop \<open>for syllable in syllables\<close> with
  \<open>result\<close> and \<open>char_index\<close>.
\<close>

fun restore_chars ::
  "unicode \<Rightarrow> ustring \<Rightarrow> ustring \<Rightarrow> ustring \<Rightarrow> nat \<Rightarrow> error + (ustring \<times> nat)"
where
  "restore_chars U original [] restored char_index = Inr (restored, char_index)"
| "restore_chars U original (char # rest) restored char_index =
     (if char_index < length original then
        (case getitem original char_index of
           Inl e \<Rightarrow> Inl e
         | Inr oc \<Rightarrow>
             if str_isupper U [oc] then
               restore_chars U original rest (restored @ str_upper U [char]) (char_index + 1)
             else restore_chars U original rest (restored @ [char]) (char_index + 1))
      else restore_chars U original rest (restored @ [char]) char_index)"

fun restore_loop ::
  "unicode \<Rightarrow> ustring \<Rightarrow> ustring list \<Rightarrow> ustring list \<Rightarrow> nat \<Rightarrow> error + ustring list"
where
  "restore_loop U original [] result char_index = Inr result"
| "restore_loop U original (syllable # rest) result char_index =
     (case restore_chars U original syllable [] char_index of
        Inl e \<Rightarrow> Inl e
      | Inr (restored, char_index') \<Rightarrow>
          restore_loop U original rest (result @ [restored]) char_index')"

definition restore_case :: "unicode \<Rightarrow> ustring list \<Rightarrow> ustring \<Rightarrow> error + ustring list" where
  "restore_case U syllables original = restore_loop U original syllables [] 0"

subsection \<open>Facade: syllabify, count, analyze\<close>

text \<open>
  \<open>syllabify\<close> returns \<open>Union[List[str], str]\<close>; the optional separator is an
  \<open>option\<close>. \<open>separator.join(syllables)\<close> is \<open>join\<close>.
\<close>

datatype result = Syllables "ustring list" | Joined ustring

fun join :: "ustring \<Rightarrow> ustring list \<Rightarrow> ustring" where
  "join sep [] = []"
| "join sep [s] = s"
| "join sep (s # t # rest) = s @ sep @ join sep (t # rest)"

definition truthy :: "ustring option \<Rightarrow> bool" where
  \<comment> \<open>the truth value of an \<open>Optional[str]\<close>: \<open>None\<close> and \<open>""\<close> are false\<close>
  "truthy separator = (case separator of None \<Rightarrow> False | Some s \<Rightarrow> s \<noteq> [])"

definition syllabify :: "unicode \<Rightarrow> ustring \<Rightarrow> ustring option \<Rightarrow> error + result" where
  "syllabify U word separator =
     (if word = [] then Inr (if truthy separator then Joined [] else Syllables [])
      else
        let word = normalize_nfc U word;
            original_word = word;
            word_lower = str_lower U word
        in case segment word_lower of
             Inl e \<Rightarrow> Inl e
           | Inr syllables \<Rightarrow>
               (case restore_case U syllables original_word of
                  Inl e \<Rightarrow> Inl e
                | Inr syllables \<Rightarrow>
                    (case separator of
                       Some sep \<Rightarrow> Inr (Joined (join sep syllables))
                     | None \<Rightarrow> Inr (Syllables syllables))))"

text \<open>
  Python's \<open>str.find\<close> and \<open>str.split(sep)\<close>, from the language reference: \<open>find\<close> is
  the lowest index where \<open>sep\<close> starts, \<open>split\<close> cuts at the leftmost occurrence and
  goes on behind it, and raises ValueError on the empty separator. \<open>sep in s\<close> is
  \<open>occurs_in\<close>.
\<close>

fun find_str :: "ustring \<Rightarrow> ustring \<Rightarrow> nat option" where
  "find_str [] sep = (if sep = [] then Some 0 else None)"
| "find_str (c # cs) sep =
     (if prefix sep (c # cs) then Some 0 else map_option Suc (find_str cs sep))"

definition occurs_in :: "ustring \<Rightarrow> ustring \<Rightarrow> bool" where
  "occurs_in sep s \<longleftrightarrow> find_str s sep \<noteq> None"

lemma find_str_bound: "find_str s sep = Some i \<Longrightarrow> i + length sep \<le> length s"
proof (induction s arbitrary: i)
  case Nil
  then show ?case by (simp split: if_splits)
next
  case (Cons c cs)
  show ?case
  proof (cases "prefix sep (c # cs)")
    case True
    with Cons.prems prefix_length_le [of sep "c # cs"] show ?thesis by simp
  next
    case False
    with Cons.prems obtain j where "find_str cs sep = Some j" "i = Suc j" by auto
    with Cons.IH show ?thesis by simp
  qed
qed

function split_parts :: "ustring \<Rightarrow> ustring \<Rightarrow> ustring list" where
  "split_parts s sep =
     (case find_str s sep of
        None \<Rightarrow> [s]
      | Some i \<Rightarrow>
          if sep = [] then [s]
          else take i s # split_parts (drop (i + length sep) s) sep)"
  by pat_completeness auto
termination
proof (relation "measure (\<lambda>(s, sep). length s)")
  show "wf (measure (\<lambda>(s, sep). length s))" by simp
next
  fix s sep :: ustring and i
  assume "find_str s sep = Some i" "sep \<noteq> []"
  then have "i + length sep \<le> length s" "0 < length sep"
    by (simp_all add: find_str_bound)
  then have "length s - (i + length sep) < length s"
    by arith
  then show "((drop (i + length sep) s, sep), (s, sep)) \<in> measure (\<lambda>(s, sep). length s)"
    by simp
qed

declare split_parts.simps [simp del]

definition split_str :: "ustring \<Rightarrow> ustring \<Rightarrow> error + ustring list" where
  "split_str s sep = (if sep = [] then Inl ValueError else Inr (split_parts s sep))"

definition split_result :: "result \<Rightarrow> ustring \<Rightarrow> error + ustring list" where
  \<comment> \<open>\<open>r.split(sep)\<close> on a value returned by \<open>syllabify\<close>: a list has no \<open>split\<close>\<close>
  "split_result r sep =
     (case r of Joined s \<Rightarrow> split_str s sep | Syllables syls \<Rightarrow> Inl AttributeError)"

definition count :: "unicode \<Rightarrow> ustring \<Rightarrow> error + int" where
  "count U word =
     (case syllabify U word None of
        Inl e \<Rightarrow> Inl e
      | Inr (Syllables syllables) \<Rightarrow> Inr (int (length syllables))
      | Inr (Joined s) \<Rightarrow> Inr 0)"

record syllable_info =
  info_word :: ustring
  info_syllables :: "ustring list"
  info_count :: int
  info_structure :: "ustring list"

text \<open>The two loops of \<open>analyze\<close>: over the characters of \<open>syl.lower()\<close>, and over the syllables.\<close>

fun struct_chars :: "ustring \<Rightarrow> ustring \<Rightarrow> ustring" where
  "struct_chars [] struct = struct"
| "struct_chars (char # rest) struct =
     (if char \<in> VOWELS then struct_chars rest (struct @ ascii ''V'')
      else if char \<in> CONSONANTS then struct_chars rest (struct @ ascii ''C'')
      else struct_chars rest struct)"

fun structure_loop :: "unicode \<Rightarrow> ustring list \<Rightarrow> ustring list \<Rightarrow> ustring list" where
  "structure_loop U [] structure = structure"
| "structure_loop U (syl # rest) structure =
     structure_loop U rest (structure @ [struct_chars (str_lower U syl) []])"

definition analyze :: "unicode \<Rightarrow> ustring \<Rightarrow> error + syllable_info" where
  "analyze U word =
     (case syllabify U word None of
        Inl e \<Rightarrow> Inl e
      | Inr r \<Rightarrow>
          (case (case r of
                   Joined s \<Rightarrow> split_str s (ascii ''-'')
                 | Syllables syllables \<Rightarrow> Inr syllables) of
             Inl e \<Rightarrow> Inl e
           | Inr syllables \<Rightarrow>
               Inr \<lparr>info_word = word, info_syllables = syllables,
                    info_count = int (length syllables),
                    info_structure = structure_loop U syllables []\<rparr>))"

subsection \<open>Python's Unicode operations on the Turkish alphabet\<close>

text \<open>
  A concrete \<open>unicode\<close>, used only to run the module on concrete words. It follows
  Python's locale-independent case mapping on Basic Latin, the Latin-1 letters and the
  Turkish letters U+011E/F, U+0130/1, U+015E/F: \<open>"I".lower()\<close> is \<open>"i"\<close>,
  \<open>"\u0131".upper()\<close> is \<open>"I"\<close>, \<open>"\u00df".upper()\<close> is \<open>"SS"\<close>, and
  \<open>"\u0130".lower()\<close> is the two code points \<open>"i\u0307"\<close>. Its NFC composes a
  base letter with a directly following combining mark for the marked letters of the
  Turkish alphabet (cedilla U+0327, breve U+0306, dot above U+0307, diaeresis U+0308,
  circumflex U+0302) and leaves precomposed text as it is. Other code points are left
  unchanged, so it stands for Python on words written with these letters only.
\<close>

definition py_lower_cp :: "codepoint \<Rightarrow> ustring" where
  "py_lower_cp c =
     (if 65 \<le> c \<and> c \<le> 90 then [c + 32]
      else if 192 \<le> c \<and> c \<le> 222 \<and> c \<noteq> 215 then [c + 32]
      else if c = 286 then [287]
      else if c = 304 then [105, 775]
      else if c = 350 then [351]
      else [c])"

definition py_upper_cp :: "codepoint \<Rightarrow> ustring" where
  "py_upper_cp c =
     (if 97 \<le> c \<and> c \<le> 122 then [c - 32]
      else if 224 \<le> c \<and> c \<le> 254 \<and> c \<noteq> 247 then [c - 32]
      else if c = 181 then [924]
      else if c = 223 then [83, 83]
      else if c = 255 then [376]
      else if c = 287 then [286]
      else if c = 305 then [73]
      else if c = 351 then [350]
      else [c])"

definition py_is_upper_cp :: "codepoint \<Rightarrow> bool" where
  "py_is_upper_cp c \<longleftrightarrow>
     (65 \<le> c \<and> c \<le> 90) \<or> (192 \<le> c \<and> c \<le> 222 \<and> c \<noteq> 215) \<or> c \<in> {286, 304, 350}"

definition py_is_lower_cp :: "codepoint \<Rightarrow> bool" where
  "py_is_lower_cp c \<longleftrightarrow>
     (97 \<le> c \<and> c \<le> 122) \<or> (223 \<le> c \<and> c \<le> 255 \<and> c \<noteq> 247) \<or>
     c \<in> {170, 181, 186, 287, 305, 351}"

definition py_isupper :: "ustring \<Rightarrow> bool" where
  \<comment> \<open>all cased characters are upper case and there is at least one\<close>
  "py_isupper s \<longleftrightarrow> list_ex py_is_upper_cp s \<and> \<not> list_ex py_is_lower_cp s"

definition py_compose :: "codepoint \<Rightarrow> codepoint \<Rightarrow> codepoint option" where
  "py_compose b m =
     map_of
       [((67, 807), 199), ((99, 807), 231), ((71, 774), 286), ((103, 774), 287),
        ((73, 775), 304), ((79, 776), 214), ((111, 776), 246), ((83, 807), 350),
        ((115, 807), 351), ((85, 776), 220), ((117, 776), 252), ((65, 770), 194),
        ((97, 770), 226), ((73, 770), 206), ((105, 770), 238), ((85, 770), 219),
        ((117, 770), 251)]
       (b, m)"

fun py_nfc :: "ustring \<Rightarrow> ustring" where
  "py_nfc (b # m # rest) =
     (case py_compose b m of
        Some c \<Rightarrow> c # py_nfc rest
      | None \<Rightarrow> b # py_nfc (m # rest))"
| "py_nfc s = s"

definition py :: unicode where
  "py = \<lparr>normalize_nfc = py_nfc,
         str_lower = (\<lambda>s. concat (map py_lower_cp s)),
         str_upper = (\<lambda>s. concat (map py_upper_cp s)),
         str_isupper = py_isupper\<rparr>"

subsection \<open>Notions used to state the properties\<close>

text \<open>
  The number of vowels of a word and the length of its leading run of consonants, stated
  on the word itself and not through the loops of the module.
\<close>

definition vowel_count :: "ustring \<Rightarrow> nat" where
  "vowel_count w = length (filter (\<lambda>c. c \<in> VOWELS) w)"

definition consonant_run :: "ustring \<Rightarrow> nat" where
  "consonant_run w = length (takeWhile (\<lambda>c. c \<in> CONSONANTS) w)"

text \<open>
  The case restorer undoes the lowercasing of a word when, position by position, an
  upper-case character is the upper-casing of its lowercased character and any other
  character is left alone by lowercasing; \<open>list_all2\<close> makes the two words equally long.
\<close>

definition restores :: "unicode \<Rightarrow> codepoint \<Rightarrow> codepoint \<Rightarrow> bool" where
  "restores U oc c \<longleftrightarrow> (if str_isupper U [oc] then str_upper U [c] else [c]) = [oc]"

definition case_restorable :: "unicode \<Rightarrow> ustring \<Rightarrow> bool" where
  "case_restorable U w \<longleftrightarrow> list_all2 (restores U) w (str_lower U w)"

text \<open>The number of characters of a word that are vowels or consonants, not neutral.\<close>

definition letter_count :: "ustring \<Rightarrow> nat" where
  "letter_count w = length (filter (\<lambda>c. c \<in> VOWELS \<or> c \<in> CONSONANTS) w)"

section \<open>Properties of the boundary engine and the case restorer\<close>


lemma vowel_not_consonant: "c \<in> VOWELS \<Longrightarrow> c \<notin> CONSONANTS"
  by (auto simp: VOWELS_def CONSONANTS_def)

lemma getitem_in_range [simp]: "i < length xs \<Longrightarrow> getitem xs i = Inr (xs ! i)"
  by (simp add: getitem_def)

lemma count_consonants_run:
  "count_consonants w n = n + int (consonant_run w)"
  by (induction w arbitrary: n) (simp_all add: consonant_run_def)

lemma find_break_point_run:
  "find_break_point cur w =
     (if consonant_run w \<le> 1 then 0
      else if consonant_run w = 2 then (if is_valid_onset (take 2 w) then 0 else 1)
      else 1)"
proof (cases "w = []")
  case True
  then show ?thesis by (simp add: find_break_point_def consonant_run_def)
next
  case False
  then show ?thesis
    by (auto simp: find_break_point_def count_consonants_run Let_def)
qed

lemma find_break_point_range: "find_break_point cur w = 0 \<or> find_break_point cur w = 1"
  by (simp add: find_break_point_run)

lemma consonant_run_Cons:
  "1 \<le> consonant_run w \<Longrightarrow> \<exists>c rest. w = c # rest \<and> c \<in> CONSONANTS"
  by (cases w) (auto simp: consonant_run_def split: if_splits)

lemma find_break_point_one:
  assumes "find_break_point cur w = 1"
  shows "\<exists>c rest. w = c # rest \<and> c \<in> CONSONANTS"
proof -
  from assms have "2 \<le> consonant_run w"
    by (simp add: find_break_point_run split: if_splits)
  then show ?thesis using consonant_run_Cons [of w] by simp
qed

lemma segment_loop_end:
  "\<not> i < length word \<Longrightarrow> segment_loop word i cur syls = Inr (cur, syls)"
  by (subst segment_loop.simps) simp

lemma segment_loop_other:
  "i < length word \<Longrightarrow> word ! i \<notin> VOWELS \<Longrightarrow>
   segment_loop word i cur syls = segment_loop word (Suc i) (cur @ [word ! i]) syls"
  by (subst segment_loop.simps) simp

lemma find_break_point_Nil: "find_break_point cur [] = 0"
  by (simp add: find_break_point_def)

lemma segment_loop_vowel:
  assumes "i < length word" "word ! i \<in> VOWELS"
  shows "segment_loop word i cur syls =
     segment_loop word (Suc i + nat (find_break_point (cur @ [word ! i]) (drop (Suc i) word))) []
       (syls @ [cur @ [word ! i] @
                take (nat (find_break_point (cur @ [word ! i]) (drop (Suc i) word)))
                  (drop (Suc i) word)])"
proof (cases "Suc i < length word")
  case True
  from find_break_point_range [of "cur @ [word ! i]" "drop (Suc i) word"] True assms
  show ?thesis
    by (subst segment_loop.simps) (auto simp: Let_def)
next
  case False
  with assms have "drop (Suc i) word = []" by simp
  with False assms show ?thesis
    by (subst segment_loop.simps) (simp add: find_break_point_Nil)
qed


lemma segment_loop_spec:
  "\<exists>new cur'. segment_loop word i cur syls = Inr (cur', syls @ new) \<and>
      concat new @ cur' = cur @ drop i word \<and>
      length new = vowel_count (drop i word) \<and> [] \<notin> set new"
proof (induction "length word - i" arbitrary: i cur syls rule: less_induct)
  case less
  show ?case
  proof (cases "i < length word")
    case False
    then show ?thesis
      by (simp add: segment_loop_end vowel_count_def)
  next
    case True
    then have split: "drop i word = word ! i # drop (Suc i) word"
      by (simp add: Cons_nth_drop_Suc)
    show ?thesis
    proof (cases "word ! i \<in> VOWELS")
      case False
      from True have "length word - Suc i < length word - i" by arith
      from less [OF this, of "cur @ [word ! i]" syls]
      obtain new cur' where
        "segment_loop word (Suc i) (cur @ [word ! i]) syls = Inr (cur', syls @ new)"
        "concat new @ cur' = (cur @ [word ! i]) @ drop (Suc i) word"
        "length new = vowel_count (drop (Suc i) word)" "[] \<notin> set new"
        by blast
      with True False split show ?thesis
        by (simp add: segment_loop_other vowel_count_def)
    next
      case vowel: True
      define rest where "rest = drop (Suc i) word"
      define bp where "bp = nat (find_break_point (cur @ [word ! i]) rest)"
      define syl where "syl = cur @ [word ! i] @ take bp rest"
      have step: "segment_loop word i cur syls = segment_loop word (Suc i + bp) [] (syls @ [syl])"
        using segment_loop_vowel [OF True vowel, of cur syls]
        by (simp add: rest_def bp_def syl_def)
      have count: "vowel_count (drop bp rest) = vowel_count rest"
      proof (cases "find_break_point (cur @ [word ! i]) rest = 1")
        case True
        then obtain c tl where "rest = c # tl" "c \<in> CONSONANTS"
          using find_break_point_one by blast
        moreover from True have "bp = 1" by (simp add: bp_def)
        ultimately show ?thesis
          using vowel_not_consonant [of c] by (auto simp: vowel_count_def)
      next
        case False
        with find_break_point_range [of "cur @ [word ! i]" rest] have "bp = 0"
          by (simp add: bp_def)
        then show ?thesis by simp
      qed
      have drop: "drop (Suc i + bp) word = drop bp rest"
        by (simp add: rest_def add.commute)
      from True have "length word - (Suc i + bp) < length word - i" by arith
      from less [OF this, of "[]" "syls @ [syl]"]
      obtain new cur' where IH:
        "segment_loop word (Suc i + bp) [] (syls @ [syl]) = Inr (cur', (syls @ [syl]) @ new)"
        "concat new @ cur' = [] @ drop (Suc i + bp) word"
        "length new = vowel_count (drop (Suc i + bp) word)" "[] \<notin> set new"
        by blast
      have "segment_loop word i cur syls = Inr (cur', syls @ (syl # new))"
        using step IH(1) by simp
      moreover have "concat (syl # new) @ cur' = cur @ drop i word"
      proof -
        have "concat (syl # new) @ cur' = cur @ [word ! i] @ take bp rest @ drop bp rest"
          using IH(2) drop by (simp add: syl_def)
        also have "\<dots> = cur @ [word ! i] @ rest"
          by simp
        also have "\<dots> = cur @ drop i word"
          by (simp add: split rest_def)
        finally show ?thesis .
      qed
      moreover have "length (syl # new) = vowel_count (drop i word)"
        using IH(3) drop count vowel by (simp add: split rest_def vowel_count_def)
      moreover have "[] \<notin> set (syl # new)"
        using IH(4) by (simp add: syl_def)
      ultimately show ?thesis by blast
    qed
  qed
qed

lemma segment_spec:
  "\<exists>syls. segment word = Inr syls \<and> concat syls = word \<and> [] \<notin> set syls \<and>
     length syls = (if word = [] then 0 else max 1 (vowel_count word))"
proof -
  from segment_loop_spec [of word 0 "[]" "[]"]
  obtain new cur' where loop:
    "segment_loop word 0 [] [] = Inr (cur', new)"
    "concat new @ cur' = word" "length new = vowel_count word" "[] \<notin> set new"
    by auto
  show ?thesis
  proof (cases "cur' = []")
    case True
    with loop have "segment word = Inr new" "concat new = word"
      by (simp_all add: segment_def)
    moreover from \<open>concat new = word\<close> have "word \<noteq> [] \<Longrightarrow> new \<noteq> []" by auto
    then have "length new = (if word = [] then 0 else max 1 (vowel_count word))"
      using loop(3) by (cases new) (auto simp: vowel_count_def)
    ultimately show ?thesis using loop(4) by blast
  next
    case False
    show ?thesis
    proof (cases "new = []")
      case True
      with False loop show ?thesis
        by (auto simp: segment_def)
    next
      case nonempty: False
      then have new: "new = butlast new @ [last new]" by simp
      have "segment word = Inr (butlast new @ [last new @ cur'])"
        using loop(1) False nonempty by (simp add: segment_def iadd_last_def)
      moreover have "concat (butlast new @ [last new @ cur']) = word"
      proof -
        have "concat new = concat (butlast new) @ last new"
          by (subst new) simp
        with loop(2) show ?thesis by simp
      qed
      moreover have "[] \<notin> set (butlast new @ [last new @ cur'])"
        using loop(4) False by (auto dest: in_set_butlastD)
      moreover have "length (butlast new @ [last new @ cur']) =
          (if word = [] then 0 else max 1 (vowel_count word))"
        using loop(2,3) False nonempty by (cases new) auto
      ultimately show ?thesis by blast
    qed
  qed
qed


lemma restore_chars_spec:
  "\<exists>r k'. restore_chars U orig syl restored k = Inr (restored @ r, k') \<and>
     ((\<forall>c\<in>set syl. str_upper U [c] \<noteq> []) \<longrightarrow> syl \<noteq> [] \<longrightarrow> r \<noteq> [])"
proof (induction syl arbitrary: restored k)
  case Nil
  then show ?case by simp
next
  case (Cons c syl)
  define piece where
    "piece = (if k < length orig \<and> str_isupper U [orig ! k] then str_upper U [c] else [c])"
  define k1 where "k1 = (if k < length orig then k + 1 else k)"
  have step: "restore_chars U orig (c # syl) restored k =
      restore_chars U orig syl (restored @ piece) k1"
    by (simp add: piece_def k1_def)
  from Cons.IH [of "restored @ piece" k1]
  obtain r k' where "restore_chars U orig syl (restored @ piece) k1 = Inr ((restored @ piece) @ r, k')"
    by blast
  with step have "restore_chars U orig (c # syl) restored k = Inr (restored @ (piece @ r), k')"
    by simp
  moreover have "str_upper U [c] \<noteq> [] \<Longrightarrow> piece @ r \<noteq> []"
    by (simp add: piece_def)
  ultimately show ?case by fastforce
qed

lemma restore_loop_spec:
  "\<exists>res'. restore_loop U orig syls res k = Inr (res @ res') \<and> length res' = length syls \<and>
     ((\<forall>c\<in>set (concat syls). str_upper U [c] \<noteq> []) \<longrightarrow> [] \<notin> set syls \<longrightarrow> [] \<notin> set res')"
proof (induction syls arbitrary: res k)
  case Nil
  then show ?case by simp
next
  case (Cons syl syls)
  from restore_chars_spec [of U orig syl "[]" k]
  obtain r k' where r: "restore_chars U orig syl [] k = Inr (r, k')"
    "(\<forall>c\<in>set syl. str_upper U [c] \<noteq> []) \<longrightarrow> syl \<noteq> [] \<longrightarrow> r \<noteq> []"
    by auto
  from Cons.IH [of "res @ [r]" k']
  obtain res' where res': "restore_loop U orig syls (res @ [r]) k' = Inr ((res @ [r]) @ res')"
    "length res' = length syls"
    "(\<forall>c\<in>set (concat syls). str_upper U [c] \<noteq> []) \<longrightarrow> [] \<notin> set syls \<longrightarrow> [] \<notin> set res'"
    by blast
  have "restore_loop U orig (syl # syls) res k = Inr (res @ (r # res'))"
    using r(1) res'(1) by simp
  moreover have "length (r # res') = length (syl # syls)"
    using res'(2) by simp
  moreover have "(\<forall>c\<in>set (concat (syl # syls)). str_upper U [c] \<noteq> []) \<longrightarrow>
      [] \<notin> set (syl # syls) \<longrightarrow> [] \<notin> set (r # res')"
    using r(2) res'(3) by auto
  ultimately show ?case by blast
qed

lemma restore_chars_exact:
  "list_all2 (restores U) os syl \<Longrightarrow> orig = pre @ os @ post \<Longrightarrow>
   restore_chars U orig syl restored (length pre) = Inr (restored @ os, length pre + length os)"
proof (induction os syl arbitrary: pre restored rule: list_all2_induct)
  case Nil
  then show ?case by simp
next
  case (Cons oc os c syl)
  from Cons.prems have orig: "orig = (pre @ [oc]) @ os @ post" by simp
  from Cons.prems have at: "length pre < length orig" "orig ! length pre = oc"
    by simp_all
  from Cons.hyps(1) have piece:
    "(if str_isupper U [oc] then str_upper U [c] else [c]) = [oc]"
    by (simp add: restores_def)
  have "restore_chars U orig (c # syl) restored (length pre) =
      restore_chars U orig syl (restored @ [oc]) (length (pre @ [oc]))"
    using at piece by (auto split: if_splits)
  also have "\<dots> = Inr ((restored @ [oc]) @ os, length (pre @ [oc]) + length os)"
    by (rule Cons.IH [OF orig])
  finally show ?case by simp
qed

lemma restore_loop_exact:
  "list_all2 (restores U) os (concat syls) \<Longrightarrow> orig = pre @ os \<Longrightarrow>
   \<exists>res'. restore_loop U orig syls res (length pre) = Inr (res @ res') \<and>
      concat res' = os \<and> length res' = length syls"
proof (induction syls arbitrary: pre os res)
  case Nil
  then show ?case by simp
next
  case (Cons syl syls)
  from Cons.prems(1) obtain us vs where parts:
    "os = us @ vs" "list_all2 (restores U) us syl" "list_all2 (restores U) vs (concat syls)"
    by (auto simp: list_all2_append2)
  with Cons.prems(2) have orig: "orig = pre @ us @ vs" "orig = (pre @ us) @ vs"
    by simp_all
  have chars: "restore_chars U orig syl [] (length pre) = Inr (us, length (pre @ us))"
    using restore_chars_exact [OF parts(2) orig(1), of "[]"] by simp
  from Cons.IH [OF parts(3) orig(2), of "res @ [us]"]
  obtain res' where res':
    "restore_loop U orig syls (res @ [us]) (length (pre @ us)) = Inr ((res @ [us]) @ res')"
    "concat res' = vs" "length res' = length syls"
    by blast
  have "restore_loop U orig (syl # syls) res (length pre) = Inr (res @ (us # res'))"
    using chars res'(1) by simp
  with res'(2,3) parts(1) show ?case by fastforce
qed

lemma restore_case_exact:
  assumes "case_restorable U w" "concat low = str_lower U w"
  shows "\<exists>syls. restore_case U low w = Inr syls \<and> concat syls = w \<and> length syls = length low"
  using restore_loop_exact [of U w low w "[]" "[]"] assms
  by (simp add: restore_case_def case_restorable_def)

subsection \<open>The facade on a non-empty word\<close>

lemma syllabify_nonempty:
  assumes "W \<noteq> []"
  shows "\<exists>low syls.
      segment (str_lower U (normalize_nfc U W)) = Inr low \<and>
      concat low = str_lower U (normalize_nfc U W) \<and> [] \<notin> set low \<and>
      length low = (if str_lower U (normalize_nfc U W) = [] then 0
                    else max 1 (vowel_count (str_lower U (normalize_nfc U W)))) \<and>
      restore_case U low (normalize_nfc U W) = Inr syls \<and> length syls = length low \<and>
      ((\<forall>c\<in>set (str_lower U (normalize_nfc U W)). str_upper U [c] \<noteq> []) \<longrightarrow> [] \<notin> set syls) \<and>
      syllabify U W None = Inr (Syllables syls) \<and>
      (\<forall>sep. syllabify U W (Some sep) = Inr (Joined (join sep syls)))"
proof -
  define w where "w = str_lower U (normalize_nfc U W)"
  from segment_spec [of w] obtain low where low:
    "segment w = Inr low" "concat low = w" "[] \<notin> set low"
    "length low = (if w = [] then 0 else max 1 (vowel_count w))"
    by blast
  from restore_loop_spec [of U "normalize_nfc U W" low "[]" 0]
  obtain syls where syls: "restore_case U low (normalize_nfc U W) = Inr syls"
    "length syls = length low"
    "(\<forall>c\<in>set (concat low). str_upper U [c] \<noteq> []) \<longrightarrow> [] \<notin> set low \<longrightarrow> [] \<notin> set syls"
    by (auto simp: restore_case_def)
  show ?thesis
  proof (intro exI conjI)
    show "segment (str_lower U (normalize_nfc U W)) = Inr low"
      using low(1) by (simp add: w_def)
    show "concat low = str_lower U (normalize_nfc U W)"
      using low(2) by (simp add: w_def)
    show "[] \<notin> set low" by (rule low(3))
    show "length low = (if str_lower U (normalize_nfc U W) = [] then 0
        else max 1 (vowel_count (str_lower U (normalize_nfc U W))))"
      using low(4) by (simp add: w_def)
    show "restore_case U low (normalize_nfc U W) = Inr syls" by (rule syls(1))
    show "length syls = length low" by (rule syls(2))
    show "(\<forall>c\<in>set (str_lower U (normalize_nfc U W)). str_upper U [c] \<noteq> []) \<longrightarrow> [] \<notin> set syls"
      using syls(3) low(2,3) by (simp add: w_def)
    show "syllabify U W None = Inr (Syllables syls)"
      using assms low(1) syls(1) by (simp add: syllabify_def w_def)
    show "\<forall>sep. syllabify U W (Some sep) = Inr (Joined (join sep syls))"
      using assms low(1) syls(1) by (simp add: syllabify_def w_def)
  qed
qed

lemma syllabify_list: "\<exists>syls. syllabify U W None = Inr (Syllables syls)"
proof (cases "W = []")
  case True
  then show ?thesis by (simp add: syllabify_def truthy_def)
next
  case False
  from syllabify_nonempty [OF this, of U] show ?thesis by blast
qed

lemma length_structure_loop:
  "length (structure_loop U syls acc) = length acc + length syls"
  by (induction syls arbitrary: acc) simp_all

subsection \<open>Scanning a run of consonants\<close>






subsection \<open>One vowel in every syllable\<close>

lemma vowel_count_append [simp]: "vowel_count (a @ b) = vowel_count a + vowel_count b"
  by (simp add: vowel_count_def)

lemma vowel_count_Nil [simp]: "vowel_count [] = 0"
  by (simp add: vowel_count_def)

lemma vowel_count_Cons [simp]:
  "vowel_count (c # w) = (if c \<in> VOWELS then 1 else 0) + vowel_count w"
  by (simp add: vowel_count_def)

lemma segment_loop_one_vowel:
  "segment_loop word i cur syls = Inr (cur', syls') \<Longrightarrow> vowel_count cur = 0 \<Longrightarrow>
   \<forall>s\<in>set syls. vowel_count s = 1 \<Longrightarrow>
   (\<forall>s\<in>set syls'. vowel_count s = 1) \<and> vowel_count cur' = 0"
proof (induction "length word - i" arbitrary: i cur syls rule: less_induct)
  case less
  show ?case
  proof (cases "i < length word")
    case False
    with less.prems show ?thesis by (simp add: segment_loop_end)
  next
    case True
    show ?thesis
    proof (cases "word ! i \<in> VOWELS")
      case False
      from True have smaller: "length word - Suc i < length word - i" by arith
      have "segment_loop word (Suc i) (cur @ [word ! i]) syls = Inr (cur', syls')"
        using less.prems(1) True False by (simp add: segment_loop_other)
      moreover have "vowel_count (cur @ [word ! i]) = 0"
        using less.prems(2) False by simp
      ultimately show ?thesis
        using less.hyps [OF smaller] less.prems(3) by blast
    next
      case vowel: True
      define rest where "rest = drop (Suc i) word"
      define bp where "bp = nat (find_break_point (cur @ [word ! i]) rest)"
      define syl where "syl = cur @ [word ! i] @ take bp rest"
      have step: "segment_loop word (Suc i + bp) [] (syls @ [syl]) = Inr (cur', syls')"
        using segment_loop_vowel [OF True vowel, of cur syls] less.prems(1)
        by (simp add: rest_def bp_def syl_def)
      have "vowel_count (take bp rest) = 0"
      proof (cases "find_break_point (cur @ [word ! i]) rest = 1")
        case True
        then obtain c tl where "rest = c # tl" "c \<in> CONSONANTS"
          using find_break_point_one by blast
        moreover from True have "bp = 1" by (simp add: bp_def)
        ultimately show ?thesis
          using vowel_not_consonant [of c] by auto
      next
        case False
        with find_break_point_range [of "cur @ [word ! i]" rest] have "bp = 0"
          by (simp add: bp_def)
        then show ?thesis by simp
      qed
      then have "vowel_count syl = 1"
        using less.prems(2) vowel by (simp add: syl_def)
      then have all: "\<forall>s\<in>set (syls @ [syl]). vowel_count s = 1"
        using less.prems(3) by simp
      from True have smaller: "length word - (Suc i + bp) < length word - i" by arith
      from less.hyps [OF smaller step _ all] show ?thesis by simp
    qed
  qed
qed

lemma segment_one_vowel:
  assumes "segment word = Inr syls" and "1 \<le> vowel_count word"
  shows "\<forall>s\<in>set syls. vowel_count s = 1"
proof -
  from segment_loop_spec [of word 0 "[]" "[]"]
  obtain new cur' where loop: "segment_loop word 0 [] [] = Inr (cur', new)"
    "length new = vowel_count word"
    by auto
  from segment_loop_one_vowel [OF loop(1)]
  have one: "\<forall>s\<in>set new. vowel_count s = 1" "vowel_count cur' = 0"
    by simp_all
  from loop(2) assms(2) have nonempty: "new \<noteq> []" by auto
  show ?thesis
  proof (cases "cur' = []")
    case True
    with assms(1) loop(1) one(1) show ?thesis by (simp add: segment_def)
  next
    case False
    with assms(1) loop(1) nonempty have syls: "syls = butlast new @ [last new @ cur']"
      by (simp add: segment_def iadd_last_def)
    from nonempty one(1) have "vowel_count (last new) = 1" by simp
    with one syls show ?thesis by (auto dest: in_set_butlastD)
  qed
qed

subsection \<open>The concrete Unicode operations\<close>

lemma py_lower_plain: "c \<noteq> 304 \<Longrightarrow> \<exists>c'. py_lower_cp c = [c'] \<and> restores py c c'"
  by (auto simp: py_lower_cp_def restores_def py_def py_isupper_def py_upper_cp_def
      py_is_upper_cp_def py_is_lower_cp_def)

lemma py_case_restorable: "304 \<notin> set w \<Longrightarrow> case_restorable py w"
proof -
  assume "304 \<notin> set w"
  then have "list_all2 (restores py) w (concat (map py_lower_cp w))"
  proof (induction w)
    case Nil
    then show ?case by simp
  next
    case (Cons c w)
    then obtain c' where "py_lower_cp c = [c']" "restores py c c'"
      using py_lower_plain [of c] by auto
    with Cons show ?case by simp
  qed
  then show ?thesis by (simp add: case_restorable_def py_def)
qed

lemma py_nfc_ascii: "\<forall>c\<in>set w. c < 770 \<Longrightarrow> py_nfc w = w"
proof (induction w rule: py_nfc.induct)
  case (1 b m rest)
  then have "py_compose b m = None"
    by (auto simp: py_compose_def)
  with 1 show ?case by simp
qed simp_all

text \<open>
  Two words of the repository's tests on which the module does not return what the
  test expects: the first loses step in the case restorer behind U+0130, whose
  lowercase form has two code points; the second has a run of three consonants.
\<close>

lemma istanbul:
  "syllabify py ([304] @ ascii ''stanbul'') None =
     Inr (Syllables [ascii ''I'', [775] @ ascii ''stan'', ascii ''bul''])"
  by code_simp

lemma genclik:
  "syllabify py (ascii ''gen'' @ [231] @ ascii ''lik'') None =
     Inr (Syllables [ascii ''gen'', [231] @ ascii ''lik''])"
  by code_simp

subsection \<open>Words whose lowercasing the case restorer undoes\<close>

lemma syllabify_restorable:
  assumes "normalize_nfc U W = W" and "case_restorable U W"
  shows "\<exists>syls. syllabify U W None = Inr (Syllables syls) \<and> concat syls = W \<and>
     length syls = (if W = [] then 0 else max 1 (vowel_count (str_lower U W)))"
proof (cases "W = []")
  case True
  then show ?thesis by (simp add: syllabify_def truthy_def)
next
  case False
  from assms(2) have "length (str_lower U W) = length W"
    by (simp add: case_restorable_def list_all2_lengthD)
  with False have nonempty: "str_lower U W \<noteq> []" by auto
  from syllabify_nonempty [OF False, of U, unfolded assms(1)]
  obtain low syls where low: "concat low = str_lower U W"
    "length low = (if str_lower U W = [] then 0 else max 1 (vowel_count (str_lower U W)))"
    and syls: "restore_case U low W = Inr syls" "syllabify U W None = Inr (Syllables syls)"
    by blast
  from restore_case_exact [OF assms(2) low(1)] syls(1)
  have "concat syls = W" "length syls = length low"
    by auto
  with syls(2) low(2) nonempty False show ?thesis by simp
qed

subsection \<open>Shape codes\<close>

lemma letter_count_Cons [simp]:
  "letter_count (c # w) = (if c \<in> VOWELS \<or> c \<in> CONSONANTS then 1 else 0) + letter_count w"
  by (simp add: letter_count_def)

lemma letter_count_Nil [simp]: "letter_count [] = 0"
  by (simp add: letter_count_def)

lemma letter_count_append [simp]: "letter_count (a @ b) = letter_count a + letter_count b"
  by (simp add: letter_count_def)

lemma struct_chars_eq:
  "struct_chars w acc =
     acc @ map (\<lambda>c. if c \<in> VOWELS then 86 else 67)
             (filter (\<lambda>c. c \<in> VOWELS \<or> c \<in> CONSONANTS) w)"
  by (induction w arbitrary: acc) (simp_all add: ascii_def)

lemma structure_loop_eq:
  "structure_loop U syls acc = acc @ map (\<lambda>syl. struct_chars (str_lower U syl) []) syls"
  by (induction syls arbitrary: acc) simp_all

lemma py_lower_cp_letters: "letter_count (py_lower_cp c) \<le> 1"
  by (simp add: py_lower_cp_def VOWELS_def CONSONANTS_def)

lemma py_lower_letters: "letter_count (str_lower py s) \<le> length s"
proof -
  have "letter_count (concat (map py_lower_cp s)) \<le> length s"
  proof (induction s)
    case Nil
    then show ?case by simp
  next
    case (Cons c s)
    with py_lower_cp_letters [of c] show ?case by simp
  qed
  then show ?thesis by (simp add: py_def)
qed

subsection \<open>Splitting a joined string\<close>

lemma find_str_none: "sep \<noteq> [] \<Longrightarrow> hd sep \<notin> set s \<Longrightarrow> find_str s sep = None"
proof (induction s)
  case Nil
  then show ?case by simp
next
  case (Cons c s)
  from Cons.prems have "\<not> prefix sep (c # s)"
    by (cases sep) auto
  with Cons show ?case by simp
qed

lemma find_str_prefix: "sep \<noteq> [] \<Longrightarrow> find_str (sep @ rest) sep = Some 0"
  by (cases sep) simp_all

lemma find_str_at:
  "sep \<noteq> [] \<Longrightarrow> hd sep \<notin> set s \<Longrightarrow> find_str (s @ sep @ rest) sep = Some (length s)"
proof (induction s)
  case Nil
  then show ?case by (simp add: find_str_prefix)
next
  case (Cons c s)
  from Cons.prems have "\<not> prefix sep (c # s @ sep @ rest)"
    by (cases sep) auto
  with Cons show ?case by simp
qed

lemma split_parts_join:
  "sep \<noteq> [] \<Longrightarrow> syls \<noteq> [] \<Longrightarrow> \<forall>s\<in>set syls. hd sep \<notin> set s \<Longrightarrow>
   split_parts (join sep syls) sep = syls"
proof (induction sep syls rule: join.induct)
  case (1 sep)
  then show ?case by simp
next
  case (2 sep s)
  then have "find_str s sep = None" by (simp add: find_str_none)
  then show ?case by (subst split_parts.simps) simp
next
  case (3 sep s t rest)
  from "3.prems" have found: "find_str (s @ sep @ join sep (t # rest)) sep = Some (length s)"
    by (simp add: find_str_at)
  from "3.prems" "3.IH" have rest: "split_parts (join sep (t # rest)) sep = t # rest"
    by simp
  have "split_parts (s @ sep @ join sep (t # rest)) sep =
      s # split_parts (join sep (t # rest)) sep"
    using found "3.prems"(1) by (subst split_parts.simps) simp
  with rest show ?case by simp
qed

section \<open>The claims\<close>

subsection \<open>Concatenating the syllables\<close>

text \<open>
  Claim C1, amended. For every word that is already in NFC form and whose lowercasing
  the case restorer undoes (the lowercased word has as many code points, each upper-case
  code point is the upper-casing of its lowercased one, every other code point is
  unchanged by lowercasing), \<open>syllabify\<close> returns a list of syllables whose
  concatenation is the word, code point for code point and in the original casing. And
  \<open>syllabify\<close> of the word T, u with diaeresis, r, k, i, y, e is its three syllables
  T-u-r, k-i, y-e with the capital kept.
\<close>

theorem concat_reproduces_word:
  assumes "normalize_nfc U W = W" and "case_restorable U W"
  shows "(\<exists>syls. syllabify U W None = Inr (Syllables syls) \<and> concat syls = W) \<and>
     syllabify py (ascii ''T'' @ [252] @ ascii ''rkiye'') None =
       Inr (Syllables [ascii ''T'' @ [252] @ ascii ''r'', ascii ''ki'', ascii ''ye''])"
proof -
  have "syllabify py (ascii ''T'' @ [252] @ ascii ''rkiye'') None =
      Inr (Syllables [ascii ''T'' @ [252] @ ascii ''r'', ascii ''ki'', ascii ''ye''])"
    by code_simp
  with syllabify_restorable [OF assms] show ?thesis by blast
qed

theorem concat_reproduces_word_witness:
  "syllabify py (ascii ''KiTaP'') None = Inr (Syllables [ascii ''Ki'', ascii ''TaP'']) \<and>
   concat [ascii ''Ki'', ascii ''TaP''] = ascii ''KiTaP''"
proof -
  have nfc: "normalize_nfc py (ascii ''KiTaP'') = ascii ''KiTaP''"
    by (simp add: py_def ascii_def py_compose_def)
  have restorable: "case_restorable py (ascii ''KiTaP'')"
    by (rule py_case_restorable) (simp add: ascii_def)
  have run: "syllabify py (ascii ''KiTaP'') None = Inr (Syllables [ascii ''Ki'', ascii ''TaP''])"
    by code_simp
  from concat_reproduces_word [OF nfc restorable] run show ?thesis
    by auto
qed

text \<open>
  Claim C1 as stated, for every word, fails on a decomposed input: \<open>syllabify\<close>
  normalizes the word to NFC before anything else, so g, o, U+0308, z comes back as the
  single syllable g, U+00F6, z, three code points for the four of the input.
\<close>

theorem decomposed_input_counterexample:
  "syllabify py (ascii ''g'' @ [111, 776] @ ascii ''z'') None =
     Inr (Syllables [ascii ''g'' @ [246] @ ascii ''z'']) \<and>
   concat [ascii ''g'' @ [246] @ ascii ''z''] \<noteq> ascii ''g'' @ [111, 776] @ ascii ''z''"
proof -
  have "syllabify py (ascii ''g'' @ [111, 776] @ ascii ''z'') None =
     Inr (Syllables [ascii ''g'' @ [246] @ ascii ''z''])"
    by code_simp
  then show ?thesis by (simp add: ascii_def)
qed

subsection \<open>A run of two consonants\<close>



subsection \<open>A run of at most one consonant\<close>



subsection \<open>A run of three or more consonants\<close>



subsection \<open>Empty input\<close>

text \<open>
  Claim C5. On the empty word \<open>syllabify\<close> returns the empty list when no separator is
  given and the empty string when a non-empty separator is given. With the empty string
  as separator it returns the empty list and not the empty string: the early return
  tests the truth value of \<open>separator\<close>, where the return at the end of the function
  tests \<open>separator is not None\<close>.
\<close>

theorem empty_word:
  "syllabify U [] None = Inr (Syllables []) \<and>
   (\<forall>sep. sep \<noteq> [] \<longrightarrow> syllabify U [] (Some sep) = Inr (Joined [])) \<and>
   syllabify U [] (Some []) = Inr (Syllables [])"
  by (simp add: syllabify_def truthy_def)

theorem empty_word_witness:
  "ascii ''-'' \<noteq> [] \<and> syllabify py [] (Some (ascii ''-'')) = Inr (Joined []) \<and>
   syllabify py [] (Some []) = Inr (Syllables [])"
  using empty_word [of py] by (simp add: ascii_def)

subsection \<open>Separator round trip\<close>

text \<open>
  Claim C6, amended. For every word whose list of syllables is not empty (every
  non-empty word) and every non-empty separator whose first character occurs in no
  syllable, \<open>syllabify\<close> with the separator returns the syllables joined by it, and
  splitting that string on the separator gives back exactly the list of syllables.
\<close>

theorem split_inverts_join:
  assumes "syllabify U W None = Inr (Syllables syls)" and "syls \<noteq> []"
    and "sep \<noteq> []" and "\<forall>s\<in>set syls. hd sep \<notin> set s"
  shows "\<exists>joined. syllabify U W (Some sep) = Inr (Joined joined) \<and>
     split_result (Joined joined) sep = Inr syls"
proof -
  from assms(1,2) have "W \<noteq> []"
    by (auto simp: syllabify_def truthy_def)
  from syllabify_nonempty [OF this, of U] assms(1)
  have "syllabify U W (Some sep) = Inr (Joined (join sep syls))"
    by auto
  moreover have "split_result (Joined (join sep syls)) sep = Inr syls"
    using assms(2,3,4) by (simp add: split_result_def split_str_def split_parts_join)
  ultimately show ?thesis by blast
qed

theorem split_inverts_join_witness:
  "syllabify py (ascii ''merhaba'') (Some (ascii ''-'')) = Inr (Joined (ascii ''mer-ha-ba'')) \<and>
   split_result (Joined (ascii ''mer-ha-ba'')) (ascii ''-'') =
     Inr [ascii ''mer'', ascii ''ha'', ascii ''ba'']"
proof -
  have run: "syllabify py (ascii ''merhaba'') None =
      Inr (Syllables [ascii ''mer'', ascii ''ha'', ascii ''ba''])"
    by code_simp
  have joined: "syllabify py (ascii ''merhaba'') (Some (ascii ''-'')) =
      Inr (Joined (ascii ''mer-ha-ba''))"
    by code_simp
  from split_inverts_join [OF run, of "ascii ''-''"] joined show ?thesis
    by (simp add: ascii_def)
qed

text \<open>
  Claim C6 as stated asks only that the separator occurs inside no syllable. That is
  not enough: for the word ana, syllables a and na, the separator aa occurs in neither
  syllable, but the joined string a-aa-na is aaana, where the leftmost aa starts at
  the first character, and \<open>split\<close> returns the empty string and ana.
\<close>

theorem split_overlap_counterexample:
  "syllabify py (ascii ''ana'') None = Inr (Syllables [ascii ''a'', ascii ''na'']) \<and>
   \<not> occurs_in (ascii ''aa'') (ascii ''a'') \<and> \<not> occurs_in (ascii ''aa'') (ascii ''na'') \<and>
   syllabify py (ascii ''ana'') (Some (ascii ''aa'')) = Inr (Joined (ascii ''aaana'')) \<and>
   split_result (Joined (ascii ''aaana'')) (ascii ''aa'') = Inr [[], ascii ''ana''] \<and>
   [[], ascii ''ana''] \<noteq> [ascii ''a'', ascii ''na'']"
proof -
  have "syllabify py (ascii ''ana'') None = Inr (Syllables [ascii ''a'', ascii ''na''])"
    by code_simp
  moreover have "\<not> occurs_in (ascii ''aa'') (ascii ''a'')" "\<not> occurs_in (ascii ''aa'') (ascii ''na'')"
    by (simp_all add: occurs_in_def ascii_def)
  moreover have "syllabify py (ascii ''ana'') (Some (ascii ''aa'')) = Inr (Joined (ascii ''aaana''))"
    by code_simp
  moreover have "split_result (Joined (ascii ''aaana'')) (ascii ''aa'') = Inr [[], ascii ''ana'']"
    by code_simp
  moreover have "[[], ascii ''ana''] \<noteq> [ascii ''a'', ascii ''na'']"
    by (simp add: ascii_def)
  ultimately show ?thesis by blast
qed

text \<open>
  The empty word is a second exception: its list of syllables is empty, the joined
  string is empty, and splitting the empty string gives a list with one empty string.
\<close>

lemma split_empty_input:
  "syllabify py [] None = Inr (Syllables []) \<and>
   syllabify py [] (Some (ascii ''-'')) = Inr (Joined []) \<and>
   split_result (Joined []) (ascii ''-'') = Inr [[]]"
  by code_simp

subsection \<open>No failure, and words without a vowel\<close>

text \<open>
  Claim C7, amended. \<open>syllabify\<close> returns a value, never an error, for every word and
  every separator. For a non-empty word whose NFC-normalized, lowercased form is not
  empty and has no vowel, the result is a single syllable. That syllable is the input
  word itself when the word is already in NFC form and its lowercasing is undone by the
  case restorer.
\<close>

theorem no_vowel_single_syllable:
  "(\<exists>r. syllabify U W sep = Inr r) \<and>
   (W \<noteq> [] \<longrightarrow> str_lower U (normalize_nfc U W) \<noteq> [] \<longrightarrow>
      vowel_count (str_lower U (normalize_nfc U W)) = 0 \<longrightarrow>
      (\<exists>s. syllabify U W None = Inr (Syllables [s]))) \<and>
   (W \<noteq> [] \<longrightarrow> normalize_nfc U W = W \<longrightarrow> case_restorable U W \<longrightarrow>
      vowel_count (str_lower U W) = 0 \<longrightarrow>
      syllabify U W None = Inr (Syllables [W]))"
proof (intro conjI impI)
  show "\<exists>r. syllabify U W sep = Inr r"
  proof (cases "W = []")
    case True
    then show ?thesis by (simp add: syllabify_def)
  next
    case False
    from syllabify_nonempty [OF False, of U] show ?thesis
      by (cases sep) auto
  qed
next
  assume "W \<noteq> []" and nonempty: "str_lower U (normalize_nfc U W) \<noteq> []"
    and none: "vowel_count (str_lower U (normalize_nfc U W)) = 0"
  from syllabify_nonempty [OF \<open>W \<noteq> []\<close>, of U] nonempty none
  obtain syls where "syllabify U W None = Inr (Syllables syls)" "length syls = 1"
    by auto
  moreover from \<open>length syls = 1\<close> obtain s where "syls = [s]"
    by (cases syls) auto
  ultimately show "\<exists>s. syllabify U W None = Inr (Syllables [s])" by auto
next
  assume "W \<noteq> []" and nfc: "normalize_nfc U W = W" and restorable: "case_restorable U W"
    and none: "vowel_count (str_lower U W) = 0"
  from syllabify_restorable [OF nfc restorable] \<open>W \<noteq> []\<close> none
  obtain syls where syls: "syllabify U W None = Inr (Syllables syls)" "concat syls = W"
    "length syls = 1"
    by auto
  from syls(3) obtain s where "syls = [s]"
    by (cases syls) auto
  with syls show "syllabify U W None = Inr (Syllables [W])" by simp
qed

theorem no_vowel_single_syllable_witness:
  "syllabify py (ascii ''TBMM'') None = Inr (Syllables [ascii ''TBMM'']) \<and>
   (\<exists>r. syllabify py (ascii ''TBMM'') (Some (ascii ''-'')) = Inr r)"
proof -
  have nfc: "normalize_nfc py (ascii ''TBMM'') = ascii ''TBMM''"
    by (simp add: py_def ascii_def py_compose_def)
  have restorable: "case_restorable py (ascii ''TBMM'')"
    by (rule py_case_restorable) (simp add: ascii_def)
  have none: "vowel_count (str_lower py (ascii ''TBMM'')) = 0"
    by (simp add: py_def ascii_def py_lower_cp_def VOWELS_def)
  have nonempty: "ascii ''TBMM'' \<noteq> []"
    by (simp add: ascii_def)
  from no_vowel_single_syllable [of py "ascii ''TBMM''" "Some (ascii ''-'')"]
    nfc restorable none nonempty
  show ?thesis by simp
qed

text \<open>
  Claim C7 as stated fails on a decomposed input without a vowel: for c followed by the
  combining cedilla U+0327 the single syllable returned is the composed U+00E7, one code
  point, not the two of the input.
\<close>

theorem no_vowel_counterexample:
  "[99, 807] \<noteq> ([] :: ustring) \<and> vowel_count [99, 807] = 0 \<and>
   vowel_count (str_lower py (normalize_nfc py [99, 807])) = 0 \<and>
   syllabify py [99, 807] None = Inr (Syllables [[231]]) \<and> [231] \<noteq> [99, 807 :: codepoint]"
proof -
  have "syllabify py [99, 807] None = Inr (Syllables [[231]])"
    by code_simp
  moreover have "str_lower py (normalize_nfc py [99, 807]) = [231]"
    by code_simp
  ultimately show ?thesis by (simp add: VOWELS_def)
qed

subsection \<open>Count consistency\<close>

text \<open>
  Claim C8. For every word, \<open>syllabify\<close> without a separator returns a list,
  \<open>count\<close> returns the length of that list, and \<open>analyze\<close> returns a record whose
  structure list has that length, whose count field is that length and whose syllables
  are that list. None of the three raises.
\<close>

theorem count_consistent:
  "\<exists>syls info.
     syllabify U W None = Inr (Syllables syls) \<and>
     count U W = Inr (int (length syls)) \<and>
     analyze U W = Inr info \<and>
     length (info_structure info) = length syls \<and>
     info_count info = int (length syls) \<and>
     info_syllables info = syls"
proof -
  from syllabify_list [of U W] obtain syls where
    syls: "syllabify U W None = Inr (Syllables syls)" ..
  define info where
    "info = \<lparr>info_word = W, info_syllables = syls, info_count = int (length syls),
             info_structure = structure_loop U syls []\<rparr>"
  have "count U W = Inr (int (length syls))"
    using syls by (simp add: count_def)
  moreover have "analyze U W = Inr info"
    using syls by (simp add: analyze_def info_def)
  moreover have "length (info_structure info) = length syls"
    by (simp add: info_def length_structure_loop)
  moreover have "info_count info = int (length syls)" "info_syllables info = syls"
    by (simp_all add: info_def)
  ultimately show ?thesis using syls by blast
qed

theorem count_consistent_witness:
  "count py (ascii ''merhaba'') = Inr 3 \<and>
   (\<exists>info. analyze py (ascii ''merhaba'') = Inr info \<and> length (info_structure info) = 3 \<and>
      info_count info = 3)"
proof -
  have run: "syllabify py (ascii ''merhaba'') None =
      Inr (Syllables [ascii ''mer'', ascii ''ha'', ascii ''ba''])"
    by code_simp
  from count_consistent [of py "ascii ''merhaba''"] run show ?thesis
    by auto
qed

subsection \<open>Shape codes\<close>

text \<open>
  Claim C9. For every word, each shape code of \<open>analyze\<close> is a string over the
  letters V and C, it is the V/C image of the vowels and consonants of the lowercased
  syllable in their order, so a neutral character contributes no letter, and it is no
  longer than the lowercased syllable. It is no longer than the syllable itself by one
  property of \<open>str.lower\<close>: the lowercased form of a string has no more vowels and
  consonants than the string has code points. Python's lowercasing has it: the only
  character whose lowercase form is longer, U+0130, gains the neutral U+0307.
\<close>

theorem shape_codes:
  "\<exists>syls info.
     syllabify U W None = Inr (Syllables syls) \<and> analyze U W = Inr info \<and>
     length (info_structure info) = length syls \<and>
     (\<forall>i<length syls.
        set (info_structure info ! i) \<subseteq> set (ascii ''VC'') \<and>
        info_structure info ! i =
          map (\<lambda>c. if c \<in> VOWELS then 86 else 67)
            (filter (\<lambda>c. c \<in> VOWELS \<or> c \<in> CONSONANTS) (str_lower U (syls ! i))) \<and>
        length (info_structure info ! i) \<le> length (str_lower U (syls ! i)) \<and>
        ((\<forall>s. letter_count (str_lower U s) \<le> length s) \<longrightarrow>
           length (info_structure info ! i) \<le> length (syls ! i)))"
proof -
  from syllabify_list [of U W] obtain syls where
    syls: "syllabify U W None = Inr (Syllables syls)" ..
  define info where
    "info = \<lparr>info_word = W, info_syllables = syls, info_count = int (length syls),
             info_structure = structure_loop U syls []\<rparr>"
  have analyze: "analyze U W = Inr info"
    using syls by (simp add: analyze_def info_def)
  have len: "length (info_structure info) = length syls"
    by (simp add: info_def structure_loop_eq)
  have "set (info_structure info ! i) \<subseteq> set (ascii ''VC'') \<and>
        info_structure info ! i =
          map (\<lambda>c. if c \<in> VOWELS then 86 else 67)
            (filter (\<lambda>c. c \<in> VOWELS \<or> c \<in> CONSONANTS) (str_lower U (syls ! i))) \<and>
        length (info_structure info ! i) \<le> length (str_lower U (syls ! i)) \<and>
        ((\<forall>s. letter_count (str_lower U s) \<le> length s) \<longrightarrow>
           length (info_structure info ! i) \<le> length (syls ! i))"
    if "i < length syls" for i
  proof -
    have code: "info_structure info ! i =
        map (\<lambda>c. if c \<in> VOWELS then 86 else 67)
          (filter (\<lambda>c. c \<in> VOWELS \<or> c \<in> CONSONANTS) (str_lower U (syls ! i)))"
      using that by (simp add: info_def structure_loop_eq struct_chars_eq)
    then have count: "length (info_structure info ! i) = letter_count (str_lower U (syls ! i))"
      by (simp add: letter_count_def)
    then have "(\<forall>s. letter_count (str_lower U s) \<le> length s) \<longrightarrow>
        length (info_structure info ! i) \<le> length (syls ! i)"
      by simp
    moreover have "length (info_structure info ! i) \<le> length (str_lower U (syls ! i))"
      unfolding count by (simp add: letter_count_def)
    moreover have "set (info_structure info ! i) \<subseteq> set (ascii ''VC'')"
      unfolding code by (auto simp: ascii_def)
    ultimately show ?thesis using code by blast
  qed
  with syls analyze len show ?thesis by blast
qed

theorem shape_codes_witness:
  "\<exists>info. analyze py (ascii ''Ali'' @ [39] @ ascii ''nin'') = Inr info \<and>
     info_structure info = [ascii ''V'', ascii ''CV'', ascii ''CVC''] \<and>
     length (info_structure info ! 2) \<le> length ([39] @ ascii ''nin'')"
proof -
  let ?W = "ascii ''Ali'' @ [39] @ ascii ''nin''"
  have run: "syllabify py ?W None =
      Inr (Syllables [ascii ''A'', ascii ''li'', [39] @ ascii ''nin''])"
    by code_simp
  have shapes: "structure_loop py [ascii ''A'', ascii ''li'', [39] @ ascii ''nin''] [] =
      [ascii ''V'', ascii ''CV'', ascii ''CVC'']"
    by code_simp
  have lower: "\<forall>s. letter_count (str_lower py s) \<le> length s"
    using py_lower_letters by blast
  from shape_codes [of py ?W] lower
  obtain syls info where found: "syllabify py ?W None = Inr (Syllables syls)"
    "analyze py ?W = Inr info"
    "\<forall>i<length syls. length (info_structure info ! i) \<le> length (syls ! i)"
    by blast
  from found(1) run have syls: "syls = [ascii ''A'', ascii ''li'', [39] @ ascii ''nin'']"
    by simp
  then have "2 < length syls" by simp
  with found(3) have "length (info_structure info ! 2) \<le> length (syls ! 2)"
    by blast
  then have "length (info_structure info ! 2) \<le> length ([39] @ ascii ''nin'')"
    using syls by simp
  moreover from found(2) run shapes
  have "info_structure info = [ascii ''V'', ascii ''CV'', ascii ''CVC'']"
    by (auto simp: analyze_def)
  ultimately show ?thesis using found(2) by blast
qed

subsection \<open>One syllable for every vowel\<close>

text \<open>
  Claim C10. For a non-empty word whose NFC-normalized, lowercased form contains
  \<open>n \<ge> 1\<close> vowels, the boundary engine returns \<open>n\<close> lowercase syllables, each
  with exactly one vowel, whose concatenation is the lowercased form (the trailing
  characters are part of the last syllable), and \<open>syllabify\<close> returns \<open>n\<close>
  syllables. None of them is empty, given that upper-casing a character of the word
  does not yield the empty string.
\<close>

theorem one_syllable_per_vowel:
  assumes "W \<noteq> []" and "vowel_count (str_lower U (normalize_nfc U W)) = n" and "1 \<le> n"
  shows "\<exists>low syls.
     segment (str_lower U (normalize_nfc U W)) = Inr low \<and>
     concat low = str_lower U (normalize_nfc U W) \<and>
     (\<forall>s\<in>set low. vowel_count s = 1) \<and> length low = n \<and>
     syllabify U W None = Inr (Syllables syls) \<and> length syls = n \<and>
     ((\<forall>c\<in>set (str_lower U (normalize_nfc U W)). str_upper U [c] \<noteq> []) \<longrightarrow> [] \<notin> set syls)"
proof -
  define w where "w = str_lower U (normalize_nfc U W)"
  from assms(2,3) have vowels: "1 \<le> vowel_count w" "vowel_count w = n"
    by (simp_all add: w_def)
  then have "w \<noteq> []" by auto
  from syllabify_nonempty [OF assms(1), of U] obtain low syls where facts:
    "segment w = Inr low" "concat low = w"
    "length low = (if w = [] then 0 else max 1 (vowel_count w))"
    "length syls = length low"
    "(\<forall>c\<in>set w. str_upper U [c] \<noteq> []) \<longrightarrow> [] \<notin> set syls"
    "syllabify U W None = Inr (Syllables syls)"
    unfolding w_def by blast
  from segment_one_vowel [OF facts(1) vowels(1)]
  have "\<forall>s\<in>set low. vowel_count s = 1" .
  moreover from facts(3) vowels \<open>w \<noteq> []\<close> have "length low = n" by simp
  ultimately show ?thesis
    using facts unfolding w_def by auto
qed

theorem one_syllable_per_vowel_witness:
  "syllabify py (ascii ''Ankara'' @ [39] @ ascii ''da'') None =
     Inr (Syllables [ascii ''An'', ascii ''ka'', ascii ''ra'', [39] @ ascii ''da'']) \<and>
   vowel_count (str_lower py (normalize_nfc py (ascii ''Ankara'' @ [39] @ ascii ''da''))) = 4"
proof -
  let ?W = "ascii ''Ankara'' @ [39] @ ascii ''da''"
  have low: "str_lower py (normalize_nfc py ?W) = ascii ''ankara'' @ [39] @ ascii ''da''"
    by code_simp
  have n: "vowel_count (str_lower py (normalize_nfc py ?W)) = 4"
    unfolding low by (simp add: vowel_count_def ascii_def VOWELS_def)
  have run: "syllabify py ?W None =
     Inr (Syllables [ascii ''An'', ascii ''ka'', ascii ''ra'', [39] @ ascii ''da''])"
    by code_simp
  from one_syllable_per_vowel [of ?W py 4, OF _ n] run n show ?thesis
    by (simp add: ascii_def)
qed

end
